theory Spec2Isabelle
  imports Main "HOL-Library.Sublist"
begin

section \<open>Data model\<close>

text \<open>
  A Python \<open>str\<close> is a sequence of Unicode code points; \<open>len\<close> counts code points and
  indexing returns a one-character string. A code point is modelled as a natural number
  and a string as a list of code points. Every theorem below holds for all such lists,
  hence for the ones whose elements are real code points (below \<open>0x110000\<close>).
\<close>

type_synonym codepoint = nat

type_synonym ustring = "codepoint list"

text \<open>
  The exceptions that the modelled code can meet. \<open>OtherException\<close> stands for any
  exception other than the two named ones and carries its \<open>str(e)\<close>.
\<close>

datatype py_error = IndexError | FileNotFoundError | OtherException ustring

text \<open>ASCII text of the source (message literals) as a code point list.\<close>

definition ascii :: "string \<Rightarrow> ustring" where
  "ascii s = map of_char s"

section \<open>Python built-ins used by the converter\<close>

text \<open>
  \<open>str.isspace\<close> on a one-character string, and the set of characters removed by
  \<open>str.strip()\<close> and \<open>str.rstrip()\<close> without argument: the Unicode whitespace
  characters.
\<close>

definition isspace :: "codepoint \<Rightarrow> bool" where
  "isspace c \<longleftrightarrow>
     (9 \<le> c \<and> c \<le> 13) \<or> (28 \<le> c \<and> c \<le> 32) \<or> c = 0x85 \<or> c = 0xA0 \<or> c = 0x1680 \<or>
     (0x2000 \<le> c \<and> c \<le> 0x200A) \<or> c = 0x2028 \<or> c = 0x2029 \<or> c = 0x202F \<or>
     c = 0x205F \<or> c = 0x3000"

definition rstrip :: "ustring \<Rightarrow> ustring" where
  "rstrip s = rev (dropWhile isspace (rev s))"

definition strip :: "ustring \<Rightarrow> ustring" where
  "strip s = dropWhile isspace (rstrip s)"

text \<open>\<open>s[i]\<close>: raises \<open>IndexError\<close> out of range (the index is never negative here).\<close>

definition getitem :: "ustring \<Rightarrow> nat \<Rightarrow> py_error + codepoint" where
  "getitem s i = (if i < length s then Inr (s ! i) else Inl IndexError)"

text \<open>\<open>text.split('\n')\<close>: always at least one line, none of which holds a newline.\<close>

fun split_nl :: "ustring \<Rightarrow> ustring list" where
  "split_nl [] = [[]]"
| "split_nl (c # cs) =
     (if c = 10 then [] # split_nl cs
      else (case split_nl cs of [] \<Rightarrow> [[c]] | l # ls \<Rightarrow> (c # l) # ls))"

text \<open>\<open>'\n'.join(result_lines)\<close>.\<close>

fun join_nl :: "ustring list \<Rightarrow> ustring" where
  "join_nl [] = []"
| "join_nl [l] = l"
| "join_nl (l # ls) = l @ [10] @ join_nl ls"

section \<open>The converter\<close>

text \<open>
  The test \<open>U+4E00 <= char <= U+9FFF\<close> on a one-character string: Python compares
  one-character strings by code point.
\<close>

definition is_chinese :: "codepoint \<Rightarrow> bool" where
  "is_chinese char \<longleftrightarrow> 0x4E00 \<le> char \<and> char \<le> 0x9FFF"

text \<open>
  The \<open>while i < len(line)\<close> loop of \<open>add_pinyin_preserve_format_optimized\<close>, with the
  loop variables \<open>i\<close> and \<open>pinyin_line\<close>. The call
  \<open>pinyin(char, style=Style.TONE, heteronym=False)[0][0]\<close> into the pypinyin library is
  the parameter \<open>lookup\<close>. A loop that does not end has the value \<open>None\<close>; an exception
  is \<open>Some (Inl e)\<close>. \<open>" " * len(char)\<close> is \<open>replicate (length [char]) 32\<close>, since
  \<open>char\<close> is a one-character string.
\<close>

partial_function (option) pinyin_while ::
  "(codepoint \<Rightarrow> ustring) \<Rightarrow> ustring \<Rightarrow> nat \<Rightarrow> ustring \<Rightarrow> (py_error + ustring) option" where
  "pinyin_while lookup line i pinyin_line =
     (if i < length line then
        (case getitem line i of
           Inl e \<Rightarrow> Some (Inl e)
         | Inr char \<Rightarrow>
             if is_chinese char then
               pinyin_while lookup line (i + 1) (pinyin_line @ lookup char @ [32, 32])
             else if isspace char then
               pinyin_while lookup line (i + 1) (pinyin_line @ [char])
             else
               pinyin_while lookup line (i + 1) (pinyin_line @ replicate (length [char]) 32))
      else Some (Inr pinyin_line))"

text \<open>
  The body of \<open>for line in lines\<close>: the lines that one iteration appends to
  \<open>result_lines\<close>.
\<close>

definition line_body ::
  "(codepoint \<Rightarrow> ustring) \<Rightarrow> ustring \<Rightarrow> (py_error + ustring list) option" where
  "line_body lookup line =
     (if strip line = [] then Some (Inr [line])
      else if \<not> list_ex is_chinese line then Some (Inr [line])
      else (case pinyin_while lookup line 0 [] of
              None \<Rightarrow> None
            | Some (Inl e) \<Rightarrow> Some (Inl e)
            | Some (Inr pinyin_line) \<Rightarrow> Some (Inr [rstrip pinyin_line, line])))"

text \<open>The \<open>for\<close> loop, with the accumulator \<open>result_lines\<close>.\<close>

fun for_lines ::
  "(codepoint \<Rightarrow> ustring) \<Rightarrow> ustring list \<Rightarrow> ustring list \<Rightarrow> (py_error + ustring list) option" where
  "for_lines lookup [] result_lines = Some (Inr result_lines)"
| "for_lines lookup (line # rest) result_lines =
     (case line_body lookup line of
        None \<Rightarrow> None
      | Some (Inl e) \<Rightarrow> Some (Inl e)
      | Some (Inr out) \<Rightarrow> for_lines lookup rest (result_lines @ out))"

definition add_pinyin_preserve_format_optimized ::
  "(codepoint \<Rightarrow> ustring) \<Rightarrow> ustring \<Rightarrow> (py_error + ustring) option" where
  "add_pinyin_preserve_format_optimized lookup chinese_text =
     (case for_lines lookup (split_nl chinese_text) [] of
        None \<Rightarrow> None
      | Some (Inl e) \<Rightarrow> Some (Inl e)
      | Some (Inr result_lines) \<Rightarrow> Some (Inr (join_nl result_lines)))"

section \<open>Auxiliary notions for the statements\<close>

text \<open>What one character of the line adds to \<open>pinyin_line\<close>.\<close>

definition piece :: "(codepoint \<Rightarrow> ustring) \<Rightarrow> codepoint \<Rightarrow> ustring" where
  "piece lookup c =
     (if is_chinese c then lookup c @ [32, 32] else if isspace c then [c] else [32])"

text \<open>
  The column of \<open>pinyin_line\<close> at which the loop starts to write for the character at
  column \<open>i\<close> of the line: every character before it has added one column, and every
  Chinese character before it its token and one more column.
\<close>

definition token_column :: "(codepoint \<Rightarrow> ustring) \<Rightarrow> ustring \<Rightarrow> nat \<Rightarrow> nat" where
  "token_column lookup line i =
     i + sum_list (map (\<lambda>c. length (lookup c) + 1) (filter is_chinese (take i line)))"

text \<open>The annotation lines that a line gets in \<open>result_lines\<close>: one or none.\<close>

definition annotation :: "(codepoint \<Rightarrow> ustring) \<Rightarrow> ustring \<Rightarrow> ustring list" where
  "annotation lookup line =
     (if list_ex is_chinese line then [rstrip (concat (map (piece lookup) line))] else [])"

text \<open>
  A lookup for the examples: U+4F60 has the token \<open>n\<close>, U+01D0 and U+597D the token
  \<open>h\<close>, U+01CE, \<open>o\<close>; any other character has the token \<open>?\<close>.
\<close>

definition ex_lookup :: "codepoint \<Rightarrow> ustring" where
  "ex_lookup c =
     (if c = 0x4F60 then [110, 0x1D0] else if c = 0x597D then [104, 0x1CE, 111] else [63])"

section \<open>Files and standard output\<close>

text \<open>
  The part of the world that \<open>process_file\<close> touches. A path that exists maps to the
  text read from it, or to the exception that opening or decoding it raises; a path
  that does not exist maps to nothing, and \<open>open_missing\<close> gives the exception that
  \<open>open\<close> raises for it: \<open>FileNotFoundError\<close>, or another one (a component of the path
  that is not a directory, for instance). \<open>write_fault\<close> gives the exception that opening
  a path for writing raises, if any. \<open>print_fault\<close> gives the exception that \<open>print\<close>
  raises for a text, if any: standard output cannot encode every text. \<open>stdout\<close> holds
  the arguments of the calls of \<open>print\<close> that returned, in order.
\<close>

record world =
  files :: "ustring \<rightharpoonup> py_error + ustring"
  open_missing :: "ustring \<Rightarrow> py_error"
  write_fault :: "ustring \<rightharpoonup> py_error"
  print_fault :: "ustring \<rightharpoonup> py_error"
  stdout :: "ustring list"

definition open_read :: "world \<Rightarrow> ustring \<Rightarrow> py_error + ustring" where
  "open_read w path = (case files w path of None \<Rightarrow> Inl (open_missing w path) | Some r \<Rightarrow> r)"

definition open_write :: "world \<Rightarrow> ustring \<Rightarrow> ustring \<Rightarrow> py_error + world" where
  "open_write w path content =
     (case write_fault w path of
        Some e \<Rightarrow> Inl e
      | None \<Rightarrow> Inr (w\<lparr>files := (files w)(path \<mapsto> Inr content)\<rparr>))"

text \<open>
  \<open>print(s)\<close>: the exception that it raises, if any, and the world after it. A call
  that raises prints nothing.
\<close>

definition print :: "world \<Rightarrow> ustring \<Rightarrow> py_error option \<times> world" where
  "print w s =
     (case print_fault w s of
        Some e \<Rightarrow> (Some e, w)
      | None \<Rightarrow> (None, w\<lparr>stdout := stdout w @ [s]\<rparr>))"

text \<open>Calls of \<open>print\<close> one after the other: the first exception ends the sequence.\<close>

fun prints :: "world \<Rightarrow> ustring list \<Rightarrow> py_error option \<times> world" where
  "prints w [] = (None, w)"
| "prints w (s # ss) =
     (case print w s of
        (Some e, w1) \<Rightarrow> (Some e, w1)
      | (None, w1) \<Rightarrow> prints w1 ss)"

text \<open>
  The text that the \<open>except\<close> clauses of \<open>process_file\<close> print for an exception: the
  first clause for \<open>FileNotFoundError\<close>, the second, with \<open>str(e)\<close>, for any other
  exception.
\<close>

fun handler_message :: "ustring \<Rightarrow> py_error \<Rightarrow> ustring" where
  "handler_message input_file FileNotFoundError =
     ascii ''Error: Input file '' @ [39] @ input_file @ [39] @ ascii '' not found.''"
| "handler_message input_file IndexError =
     ascii ''Error processing file: '' @ ascii ''string index out of range''"
| "handler_message input_file (OtherException msg) =
     ascii ''Error processing file: '' @ msg"

text \<open>
  The two \<open>except\<close> clauses. The \<open>print\<close> in a clause is outside the \<open>try\<close> body, so
  an exception that it raises is caught by neither clause and leaves \<open>process_file\<close>.
\<close>

definition handlers :: "world \<Rightarrow> ustring \<Rightarrow> py_error \<Rightarrow> py_error option \<times> world" where
  "handlers w input_file e = print w (handler_message input_file e)"

text \<open>
  \<open>process_file\<close>. \<open>os.path.splitext\<close> is the parameter \<open>splitext\<close>; \<open>output_file\<close> is
  \<open>None\<close> when the caller gives no output path. The result is \<open>None\<close> when the function
  does not return; otherwise it holds the exception that leaves the function, if any,
  and the world at that moment.
\<close>

definition process_file ::
  "(codepoint \<Rightarrow> ustring) \<Rightarrow> (ustring \<Rightarrow> ustring \<times> ustring) \<Rightarrow> world \<Rightarrow> ustring \<Rightarrow>
   ustring option \<Rightarrow> (py_error option \<times> world) option" where
  "process_file lookup splitext w input_file output_file =
     (case open_read w input_file of
        Inl e \<Rightarrow> Some (handlers w input_file e)
      | Inr chinese_text \<Rightarrow>
          (case add_pinyin_preserve_format_optimized lookup chinese_text of
             None \<Rightarrow> None
           | Some (Inl e) \<Rightarrow> Some (handlers w input_file e)
           | Some (Inr pinyin_text) \<Rightarrow>
               (let out =
                  (case output_file of
                     None \<Rightarrow>
                       (case splitext input_file of
                          (name, ext) \<Rightarrow> name @ ascii ''_pinyin'' @ ext)
                   | Some p \<Rightarrow> p)
                in case open_write w out pinyin_text of
                     Inl e \<Rightarrow> Some (handlers w input_file e)
                   | Inr w1 \<Rightarrow>
                       (case prints w1
                          [ascii ''Successfully processed: '' @ input_file,
                           ascii ''Output saved as: '' @ out,
                           [10] @ ascii ''Preview:'',
                           replicate 40 45,
                           pinyin_text,
                           replicate 40 45] of
                          (Some e, w2) \<Rightarrow> Some (handlers w2 input_file e)
                        | (None, w2) \<Rightarrow> Some (None, w2)))))"



section \<open>The while loop\<close>

lemma pinyin_while_eq:
  "pinyin_while lookup line i acc = Some (Inr (acc @ concat (map (piece lookup) (drop i line))))"
proof (induction "length line - i" arbitrary: i acc)
  case 0
  then show ?case
    by (subst pinyin_while.simps) simp
next
  case (Suc n)
  then have lt: "i < length line" and n: "n = length line - Suc i"
    by simp_all
  have d: "drop i line = line ! i # drop (Suc i) line"
    using lt by (simp add: Cons_nth_drop_Suc)
  show ?case
    by (subst pinyin_while.simps)
      (simp add: lt getitem_def Suc.hyps(1)[OF n] d piece_def)
qed

section \<open>One line\<close>

lemma pinyin_while_start:
  "pinyin_while lookup line 0 [] = Some (Inr (concat (map (piece lookup) line)))"
  by (simp add: pinyin_while_eq)

lemma is_chinese_not_space: "is_chinese c \<Longrightarrow> \<not> isspace c"
  by (auto simp: is_chinese_def isspace_def)

lemma rstrip_Nil_iff: "rstrip s = [] \<longleftrightarrow> (\<forall>c\<in>set s. isspace c)"
  by (simp add: rstrip_def)

lemma rstrip_last: "rstrip s \<noteq> [] \<Longrightarrow> \<not> isspace (last (rstrip s))"
proof -
  assume ne: "rstrip s \<noteq> []"
  then have d: "dropWhile isspace (rev s) \<noteq> []"
    by (simp add: rstrip_def)
  then have "\<not> isspace (hd (dropWhile isspace (rev s)))"
    by (rule hd_dropWhile)
  then show ?thesis
    using d by (simp add: rstrip_def last_rev)
qed

lemma strip_Nil_iff: "strip s = [] \<longleftrightarrow> (\<forall>c\<in>set s. isspace c)"
proof
  assume "strip s = []"
  then have all: "\<forall>c\<in>set (rstrip s). isspace c"
    by (simp add: strip_def)
  have "rstrip s = []"
  proof (rule ccontr)
    assume ne: "rstrip s \<noteq> []"
    then have "last (rstrip s) \<in> set (rstrip s)" by simp
    with all rstrip_last[OF ne] show False by blast
  qed
  then show "\<forall>c\<in>set s. isspace c" by (simp add: rstrip_Nil_iff)
next
  assume "\<forall>c\<in>set s. isspace c"
  then have "rstrip s = []" by (simp add: rstrip_Nil_iff)
  then show "strip s = []" by (simp add: strip_def)
qed

lemma line_body_chinese:
  assumes "list_ex is_chinese line"
  shows "line_body lookup line = Some (Inr [rstrip (concat (map (piece lookup) line)), line])"
proof -
  from assms obtain c where "c \<in> set line" "is_chinese c"
    by (auto simp: list_ex_iff)
  then have "strip line \<noteq> []"
    using is_chinese_not_space by (auto simp: strip_Nil_iff)
  then show ?thesis
    using assms by (simp add: line_body_def pinyin_while_start)
qed

lemma line_body_plain:
  "\<not> list_ex is_chinese line \<Longrightarrow> line_body lookup line = Some (Inr [line])"
  by (simp add: line_body_def)

lemma line_body_eq: "line_body lookup line = Some (Inr (annotation lookup line @ [line]))"
  by (simp add: annotation_def line_body_chinese line_body_plain)

lemma for_lines_eq:
  "for_lines lookup lines acc =
     Some (Inr (acc @ concat (map (\<lambda>l. annotation lookup l @ [l]) lines)))"
  by (induction lines arbitrary: acc) (simp_all add: line_body_eq)

lemma length_piece: "length (piece lookup c) = (if is_chinese c then length (lookup c) + 2 else 1)"
  by (simp add: piece_def)

lemma length_pieces:
  "length (concat (map (piece lookup) cs)) =
     length cs + sum_list (map (\<lambda>c. length (lookup c) + 1) (filter is_chinese cs))"
  by (induction cs) (simp_all add: length_piece)

lemma token_column_eq:
  "i \<le> length line \<Longrightarrow>
   token_column lookup line i = length (concat (map (piece lookup) (take i line)))"
  by (simp add: token_column_def length_pieces)

lemma pieces_split:
  assumes "i < length line"
  shows "concat (map (piece lookup) line) =
     concat (map (piece lookup) (take i line)) @ piece lookup (line ! i) @
     concat (map (piece lookup) (drop (Suc i) line))"
proof -
  have "line = take i line @ line ! i # drop (Suc i) line"
    using assms by (simp add: id_take_nth_drop[symmetric])
  then have "concat (map (piece lookup) line) =
      concat (map (piece lookup) (take i line @ line ! i # drop (Suc i) line))"
    by simp
  then show ?thesis by simp
qed

section \<open>Trimming, splitting and joining\<close>

lemma rstrip_append:
  assumes "xs \<noteq> []" "\<not> isspace (last xs)"
  shows "rstrip (xs @ ys) = xs @ rstrip ys"
proof -
  have "dropWhile isspace (rev xs) = rev xs"
    using assms by (cases xs rule: rev_cases) simp_all
  then show ?thesis
    using assms by (simp add: rstrip_def dropWhile_append)
qed

lemma set_rstrip: "set (rstrip s) \<subseteq> set s"
proof -
  have "set (dropWhile isspace (rev s)) \<subseteq> set (rev s)"
    by (auto dest: set_dropWhileD)
  then show ?thesis by (simp add: rstrip_def)
qed

lemma rstrip_prefix: "prefix (rstrip s) s"
proof -
  have "suffix (dropWhile isspace (rev s)) (rev s)"
    by (rule suffix_dropWhile)
  then have "prefix (rev (dropWhile isspace (rev s))) (rev (rev s))"
    by (simp only: suffix_to_prefix)
  then show ?thesis by (simp add: rstrip_def)
qed

lemma split_nl_not_Nil: "split_nl s \<noteq> []"
proof (induction s)
  case Nil
  then show ?case by simp
next
  case (Cons c cs)
  then show ?case by (cases "split_nl cs") simp_all
qed

lemma split_nl_no_newline: "l \<in> set (split_nl s) \<Longrightarrow> 10 \<notin> set l"
proof (induction s arbitrary: l)
  case Nil
  then show ?case by simp
next
  case (Cons c cs)
  obtain k ks where e: "split_nl cs = k # ks"
    using split_nl_not_Nil by (cases "split_nl cs") auto
  show ?case
  proof (cases "c = 10")
    case True
    then show ?thesis using Cons by auto
  next
    case False
    then have "l = c # k \<or> l \<in> set ks"
      using Cons.prems e by simp
    then show ?thesis
      using False Cons.IH e by auto
  qed
qed

lemma split_nl_plain: "10 \<notin> set l \<Longrightarrow> split_nl l = [l]"
  by (induction l) simp_all

lemma split_nl_append: "10 \<notin> set l \<Longrightarrow> split_nl (l @ 10 # rest) = l # split_nl rest"
  by (induction l) simp_all

lemma split_join:
  "ls \<noteq> [] \<Longrightarrow> \<forall>l\<in>set ls. 10 \<notin> set l \<Longrightarrow> split_nl (join_nl ls) = ls"
proof (induction ls rule: join_nl.induct)
  case 1
  then show ?case by simp
next
  case (2 l)
  then show ?case by (simp add: split_nl_plain)
next
  case (3 l v va)
  then show ?case by (simp add: split_nl_append)
qed

lemma join_split: "join_nl (split_nl s) = s"
proof (induction s)
  case Nil
  then show ?case by simp
next
  case (Cons c cs)
  obtain l ls where e: "split_nl cs = l # ls"
    using split_nl_not_Nil by (cases "split_nl cs") auto
  show ?case
  proof (cases "c = 10")
    case True
    then show ?thesis using Cons e by simp
  next
    case False
    then show ?thesis using Cons e by (cases ls) simp_all
  qed
qed

lemma annotation_no_newline:
  assumes "\<forall>c. 10 \<notin> set (lookup c)" "10 \<notin> set line" "a \<in> set (annotation lookup line)"
  shows "10 \<notin> set a"
proof -
  have "10 \<notin> set (concat (map (piece lookup) line))"
    using assms(1,2) by (auto simp: piece_def)
  then have "10 \<notin> set (rstrip (concat (map (piece lookup) line)))"
    using set_rstrip by blast
  then show ?thesis
    using assms(3) by (auto simp: annotation_def split: if_splits)
qed

lemma length_annotation: "length (annotation lookup l) \<le> 1"
  by (simp add: annotation_def)

lemma length_result_lines:
  "length lines \<le> length (concat (map (\<lambda>l. annotation lookup l @ [l]) lines)) \<and>
   length (concat (map (\<lambda>l. annotation lookup l @ [l]) lines)) \<le> 2 * length lines"
proof (induction lines)
  case Nil
  then show ?case by simp
next
  case (Cons l lines)
  then show ?case
    using length_annotation[of lookup l] by simp
qed

lemma subseq_result_lines:
  "subseq lines (concat (map (\<lambda>l. annotation lookup l @ [l]) lines))"
proof (induction lines)
  case Nil
  then show ?case by simp
next
  case (Cons l lines)
  then have "subseq (l # lines) (l # concat (map (\<lambda>l. annotation lookup l @ [l]) lines))"
    by simp
  then have "subseq (l # lines)
      (annotation lookup l @ l # concat (map (\<lambda>l. annotation lookup l @ [l]) lines))"
    by (rule list_emb_append2)
  then show ?case by simp
qed

section \<open>Termination, pass-through lines, trimming and line order\<close>

text \<open>
  C10. For every input string and every total lookup function the conversion returns a
  string: it neither runs forever (the value would be \<open>None\<close>) nor raises (the value
  would be \<open>Inl e\<close>). The same holds for the while loop started in any state: the index
  grows by one in each iteration until it reaches the length of the line, and the only
  indexing, \<open>line[i]\<close>, happens under the loop condition \<open>i < len(line)\<close>.
\<close>

theorem conversion_returns:
  "(\<exists>y. add_pinyin_preserve_format_optimized lookup chinese_text = Some (Inr y)) \<and>
   (\<exists>y. pinyin_while lookup line i pinyin_line = Some (Inr y))"
  by (simp add: add_pinyin_preserve_format_optimized_def for_lines_eq pinyin_while_eq)

text \<open>
  C3. A line without any qualifying character (the empty line and the lines of
  whitespace among them) adds exactly itself to the output, unchanged and with no
  annotation line before it.
\<close>

theorem plain_line_unchanged:
  assumes "\<not> list_ex is_chinese line"
  shows "line_body lookup line = Some (Inr [line]) \<and>
         for_lines lookup [line] result_lines = Some (Inr (result_lines @ [line]))"
  using assms by (simp add: line_body_plain)

theorem plain_line_unchanged_witness:
  "\<not> list_ex is_chinese (ascii ''hello'') \<and>
   line_body ex_lookup (ascii ''hello'') = Some (Inr [ascii ''hello'']) \<and>
   \<not> list_ex is_chinese [] \<and> line_body ex_lookup [] = Some (Inr [[]]) \<and>
   \<not> list_ex is_chinese [32, 9, 32] \<and> line_body ex_lookup [32, 9, 32] = Some (Inr [[32, 9, 32]])"
proof -
  have a: "\<not> list_ex is_chinese (ascii ''hello'')"
    by (simp add: ascii_def is_chinese_def)
  have b: "\<not> list_ex is_chinese []"
    by simp
  have c: "\<not> list_ex is_chinese [32, 9, 32]"
    by (simp add: is_chinese_def)
  show ?thesis
    using a b c plain_line_unchanged[OF a, of ex_lookup "[]"]
      plain_line_unchanged[OF b, of ex_lookup "[]"]
      plain_line_unchanged[OF c, of ex_lookup "[]"]
    by simp
qed

text \<open>
  C6. The annotation line that a line with a qualifying character adds to the output
  has been through \<open>rstrip\<close>: it is empty or its last character is not whitespace.
\<close>

theorem annotation_trimmed:
  assumes "list_ex is_chinese line"
  shows "\<exists>a. line_body lookup line = Some (Inr [a, line]) \<and> (a = [] \<or> \<not> isspace (last a))"
  using assms rstrip_last by (auto simp: line_body_chinese)

theorem annotation_trimmed_witness:
  "list_ex is_chinese [0x4F60, 32, 32] \<and>
   line_body ex_lookup [0x4F60, 32, 32] = Some (Inr [[110, 0x1D0], [0x4F60, 32, 32]]) \<and>
   \<not> isspace (last [110, 0x1D0])"
proof -
  have h: "list_ex is_chinese [0x4F60, 32, 32]"
    by (simp add: is_chinese_def)
  have e: "line_body ex_lookup [0x4F60, 32, 32] = Some (Inr [[110, 0x1D0], [0x4F60, 32, 32]])"
    by (simp add: line_body_chinese[OF h] piece_def ex_lookup_def is_chinese_def isspace_def
        rstrip_def)
  show ?thesis
    using h e annotation_trimmed[OF h, of ex_lookup] by (simp add: isspace_def)
qed

text \<open>
  C7. For a document of N lines, \<open>result_lines\<close> holds between N and 2N lines: in the
  order of the input, each input line once and unmodified, preceded by at most one
  annotation line. So the input lines are a subsequence of the output lines. When no
  token holds a newline, the lines of the returned string are exactly \<open>result_lines\<close>.
\<close>

theorem lines_kept_in_order:
  "\<exists>out. for_lines lookup (split_nl chinese_text) [] = Some (Inr out) \<and>
     length (split_nl chinese_text) \<le> length out \<and>
     length out \<le> 2 * length (split_nl chinese_text) \<and>
     subseq (split_nl chinese_text) out \<and>
     out = concat (map (\<lambda>l. annotation lookup l @ [l]) (split_nl chinese_text)) \<and>
     (\<forall>l. length (annotation lookup l) \<le> 1) \<and>
     ((\<forall>c. 10 \<notin> set (lookup c)) \<longrightarrow>
        (\<exists>s. add_pinyin_preserve_format_optimized lookup chinese_text = Some (Inr s) \<and>
           split_nl s = out))"
proof -
  let ?lines = "split_nl chinese_text"
  let ?out = "concat (map (\<lambda>l. annotation lookup l @ [l]) ?lines)"
  have run: "for_lines lookup ?lines [] = Some (Inr ?out)"
    by (simp add: for_lines_eq)
  have doc: "split_nl (join_nl ?out) = ?out" if tok: "\<forall>c. 10 \<notin> set (lookup c)"
  proof (rule split_join)
    have "?lines \<noteq> []" by (rule split_nl_not_Nil)
    then show "?out \<noteq> []" by (cases ?lines) simp_all
    show "\<forall>l\<in>set ?out. 10 \<notin> set l"
    proof
      fix l
      assume "l \<in> set ?out"
      then obtain x where x: "x \<in> set ?lines" and l: "l \<in> set (annotation lookup x) \<or> l = x"
        by auto
      from x have nx: "10 \<notin> set x"
        by (rule split_nl_no_newline)
      from l show "10 \<notin> set l"
      proof
        assume "l \<in> set (annotation lookup x)"
        with tok nx show ?thesis by (rule annotation_no_newline)
      next
        assume "l = x"
        with nx show ?thesis by simp
      qed
    qed
  qed
  have whole: "add_pinyin_preserve_format_optimized lookup chinese_text = Some (Inr (join_nl ?out))"
    by (simp add: add_pinyin_preserve_format_optimized_def run)
  show ?thesis
    using run length_result_lines[of ?lines lookup] subseq_result_lines[of ?lines lookup]
      length_annotation[of lookup] doc whole
    by blast
qed

theorem lines_kept_in_order_witness:
  "(\<forall>c. 10 \<notin> set (ex_lookup c)) \<and>
   split_nl [0x4F60, 10, 97, 98] = [[0x4F60], [97, 98]] \<and>
   for_lines ex_lookup (split_nl [0x4F60, 10, 97, 98]) [] =
     Some (Inr [[110, 0x1D0], [0x4F60], [97, 98]]) \<and>
   subseq (split_nl [0x4F60, 10, 97, 98]) [[110, 0x1D0], [0x4F60], [97, 98]] \<and>
   (\<exists>s. add_pinyin_preserve_format_optimized ex_lookup [0x4F60, 10, 97, 98] = Some (Inr s) \<and>
      split_nl s = [[110, 0x1D0], [0x4F60], [97, 98]])"
proof -
  have tok: "\<forall>c. 10 \<notin> set (ex_lookup c)"
    by (simp add: ex_lookup_def)
  have sp: "split_nl [0x4F60, 10, 97, 98] = [[0x4F60], [97, 98]]"
    by simp
  have a1: "annotation ex_lookup [0x4F60] = [[110, 0x1D0]]"
    by (simp add: annotation_def piece_def ex_lookup_def is_chinese_def isspace_def rstrip_def)
  have a2: "annotation ex_lookup [97, 98] = []"
    by (simp add: annotation_def is_chinese_def)
  show ?thesis
    using lines_kept_in_order[of ex_lookup "[0x4F60, 10, 97, 98]"] tok
    unfolding sp by (simp add: a1 a2 line_body_eq)
qed

section \<open>The layout of the annotation line\<close>

text \<open>
  C1, as stated, fails: in the line U+4F60 U+597D the second character is at column 1,
  and column 1 of the untrimmed annotation line holds U+01D0, the second character of
  the first token, not \<open>h\<close>, the first character of the token of U+597D.
\<close>

theorem first_column_counterexample:
  "pinyin_while ex_lookup [0x4F60, 0x597D] 0 [] =
     Some (Inr [110, 0x1D0, 32, 32, 104, 0x1CE, 111, 32, 32]) \<and>
   is_chinese ([0x4F60, 0x597D] ! 1) \<and>
   [110, 0x1D0, 32, 32, 104, 0x1CE, 111, 32, 32] ! 1 \<noteq> hd (ex_lookup ([0x4F60, 0x597D] ! 1))"
  by (simp add: pinyin_while_start piece_def ex_lookup_def is_chinese_def isspace_def)

text \<open>
  C1, amended. The loop appends and never writes at a column of its own choice: the
  token of the qualifying character at column \<open>i\<close> stands in full, first character
  included, at column \<open>token_column lookup line i\<close> of the untrimmed annotation line,
  that is \<open>i\<close> plus, for every qualifying character before column \<open>i\<close>, the length of
  its token plus one. This column is \<open>i\<close> exactly when no qualifying character comes
  before column \<open>i\<close>.
\<close>

theorem token_at_token_column:
  assumes "i < length line" "is_chinese (line ! i)"
  shows "\<exists>pl. pinyin_while lookup line 0 [] = Some (Inr pl) \<and>
           take (length (lookup (line ! i))) (drop (token_column lookup line i) pl)
             = lookup (line ! i) \<and>
           (lookup (line ! i) \<noteq> [] \<longrightarrow>
              pl ! token_column lookup line i = hd (lookup (line ! i))) \<and>
           (token_column lookup line i = i \<longleftrightarrow> \<not> list_ex is_chinese (take i line))"
proof -
  let ?pre = "concat (map (piece lookup) (take i line))"
  let ?post = "[32, 32] @ concat (map (piece lookup) (drop (Suc i) line))"
  let ?tok = "lookup (line ! i)"
  let ?pl = "concat (map (piece lookup) line)"
  have col: "token_column lookup line i = length ?pre"
    using assms(1) by (simp add: token_column_eq)
  have pl: "?pl = ?pre @ ?tok @ ?post"
    using pieces_split[OF assms(1), of lookup] assms(2) by (simp add: piece_def)
  have tk: "take (length ?tok) (drop (token_column lookup line i) ?pl) = ?tok"
    unfolding col pl by simp
  have first: "?pl ! token_column lookup line i = hd ?tok" if "?tok \<noteq> []"
    unfolding col pl using that by (simp add: nth_append hd_conv_nth)
  have "sum_list (map (\<lambda>c. length (lookup c) + 1) (filter is_chinese (take i line))) = 0
      \<longleftrightarrow> filter is_chinese (take i line) = []"
    by (cases "filter is_chinese (take i line)") simp_all
  then have same: "token_column lookup line i = i \<longleftrightarrow> \<not> list_ex is_chinese (take i line)"
    by (simp add: token_column_def list_ex_iff filter_empty_conv)
  show ?thesis
    using tk first same by (simp add: pinyin_while_start)
qed

theorem token_at_token_column_witness:
  "(1::nat) < length [0x4F60, 0x597D] \<and> is_chinese ([0x4F60, 0x597D] ! 1) \<and>
   token_column ex_lookup [0x4F60, 0x597D] 1 = 4 \<and>
   (\<exists>pl. pinyin_while ex_lookup [0x4F60, 0x597D] 0 [] = Some (Inr pl) \<and>
      take 3 (drop 4 pl) = [104, 0x1CE, 111] \<and> pl ! 4 = 104)"
proof -
  have a: "(1::nat) < length [0x4F60, 0x597D :: nat]"
    by simp
  have b: "is_chinese ([0x4F60, 0x597D] ! 1)"
    by (simp add: is_chinese_def)
  have c: "token_column ex_lookup [0x4F60, 0x597D] 1 = 4"
    by (simp add: token_column_def ex_lookup_def is_chinese_def)
  have t: "ex_lookup ([0x4F60, 0x597D] ! 1) = [104, 0x1CE, 111]"
    by (simp add: ex_lookup_def)
  have p: "pinyin_while ex_lookup [0x4F60, 0x597D] 0 [] =
      Some (Inr [110, 0x1D0, 32, 32, 104, 0x1CE, 111, 32, 32])"
    by (simp add: pinyin_while_start piece_def ex_lookup_def is_chinese_def isspace_def)
  show ?thesis
    using a b c token_at_token_column[OF a b, of ex_lookup] unfolding c t p by simp
qed

text \<open>
  C2, as stated, fails: the line that is the single character U+4F60 has length 1, and
  its untrimmed annotation line, the token and two spaces, has length 4.
\<close>

theorem line_length_counterexample:
  "list_ex is_chinese [0x4F60] \<and>
   pinyin_while ex_lookup [0x4F60] 0 [] = Some (Inr [110, 0x1D0, 32, 32]) \<and>
   length [110 :: nat, 0x1D0, 32, 32] \<noteq> length [0x4F60 :: nat]"
  by (simp add: pinyin_while_start piece_def ex_lookup_def is_chinese_def)

text \<open>
  C2, amended. For a line with at least one qualifying character, the untrimmed
  annotation line is longer than the line: its length is the length of the line plus,
  for every qualifying character, the length of its token plus one.
\<close>

theorem annotation_length:
  assumes "list_ex is_chinese line"
  shows "\<exists>pl. pinyin_while lookup line 0 [] = Some (Inr pl) \<and>
           line_body lookup line = Some (Inr [rstrip pl, line]) \<and>
           length pl = length line +
             sum_list (map (\<lambda>c. length (lookup c) + 1) (filter is_chinese line)) \<and>
           length line < length pl"
proof -
  from assms obtain c where c: "c \<in> set line" "is_chinese c"
    by (auto simp: list_ex_iff)
  then have "filter is_chinese line \<noteq> []"
    by (auto simp: filter_empty_conv)
  then have "0 < sum_list (map (\<lambda>c. length (lookup c) + 1) (filter is_chinese line))"
    by (cases "filter is_chinese line") simp_all
  then show ?thesis
    using assms by (simp add: pinyin_while_start line_body_chinese length_pieces)
qed

theorem annotation_length_witness:
  "list_ex is_chinese [0x4F60] \<and>
   (\<exists>pl. pinyin_while ex_lookup [0x4F60] 0 [] = Some (Inr pl) \<and> length pl = 4 \<and>
      line_body ex_lookup [0x4F60] = Some (Inr [rstrip pl, [0x4F60]]))"
proof -
  have h: "list_ex is_chinese [0x4F60]"
    by (simp add: is_chinese_def)
  have f: "filter is_chinese [0x4F60] = [0x4F60]"
    by (simp add: is_chinese_def)
  have t: "ex_lookup 0x4F60 = [110, 0x1D0]"
    by (simp add: ex_lookup_def)
  show ?thesis
    using h annotation_length[OF h, of ex_lookup] by (auto simp: f t)
qed

text \<open>
  C4, as stated, fails: for the one-character line U+4F60 with the token \<open>n\<close>, U+01D0
  the emitted annotation line is the whole token, of length 2, not its first character,
  and it is longer than the line.
\<close>

theorem truncation_counterexample:
  "line_body ex_lookup [0x4F60] = Some (Inr [[110, 0x1D0], [0x4F60]]) \<and>
   [110, 0x1D0] \<noteq> [110 :: nat] \<and> length [0x4F60 :: nat] < length [110 :: nat, 0x1D0]"
proof -
  have h: "list_ex is_chinese [0x4F60]"
    by (simp add: is_chinese_def)
  show ?thesis
    by (simp add: line_body_chinese[OF h] piece_def ex_lookup_def is_chinese_def isspace_def
        rstrip_def)
qed

text \<open>
  C4, amended. No token is truncated, whether or not it reaches past the end of the
  line: a token that does not end in whitespace stands in full in the emitted annotation
  line, from column \<open>token_column lookup line i\<close> on. For a line of one character
  the emitted annotation line is exactly the token: for the line U+4F60 it is \<open>n\<close>,
  U+01D0, of length 2.
\<close>

theorem token_never_truncated:
  assumes "i < length line" "is_chinese (line ! i)"
    and "lookup (line ! i) \<noteq> []" "\<not> isspace (last (lookup (line ! i)))"
  shows "\<exists>a. line_body lookup line = Some (Inr [a, line]) \<and>
           take (length (lookup (line ! i))) (drop (token_column lookup line i) a)
             = lookup (line ! i) \<and>
           token_column lookup line i + length (lookup (line ! i)) \<le> length a \<and>
           (length line = 1 \<longrightarrow> a = lookup (line ! i))"
proof -
  let ?pre = "concat (map (piece lookup) (take i line))"
  let ?post = "[32, 32] @ concat (map (piece lookup) (drop (Suc i) line))"
  let ?tok = "lookup (line ! i)"
  let ?pl = "concat (map (piece lookup) line)"
  have ch: "list_ex is_chinese line"
    using assms(1,2) by (auto simp: list_ex_iff)
  have col: "token_column lookup line i = length ?pre"
    using assms(1) by (simp add: token_column_eq)
  have "?pl = (?pre @ ?tok) @ ?post"
    using pieces_split[OF assms(1), of lookup] assms(2) by (simp add: piece_def)
  moreover have "rstrip ((?pre @ ?tok) @ ?post) = (?pre @ ?tok) @ rstrip ?post"
    by (rule rstrip_append) (use assms(3,4) in simp_all)
  ultimately have a: "rstrip ?pl = ?pre @ ?tok @ rstrip ?post"
    by simp
  have one: "rstrip ?pl = ?tok" if "length line = 1"
  proof -
    from that assms(1) have "i = 0" "drop (Suc i) line = []"
      by simp_all
    then show ?thesis
      unfolding a by (simp add: rstrip_def isspace_def)
  qed
  show ?thesis
    unfolding line_body_chinese[OF ch] col using one by (simp add: a)
qed

theorem token_never_truncated_witness:
  "(0::nat) < length [0x4F60] \<and> is_chinese ([0x4F60] ! 0) \<and> ex_lookup ([0x4F60] ! 0) \<noteq> [] \<and>
   \<not> isspace (last (ex_lookup ([0x4F60] ! 0))) \<and>
   length [0x4F60] < 0 + length (ex_lookup ([0x4F60] ! 0)) \<and>
   line_body ex_lookup [0x4F60] = Some (Inr [ex_lookup 0x4F60, [0x4F60]]) \<and>
   ex_lookup 0x4F60 = [110, 0x1D0]"
proof -
  have a: "(0::nat) < length [0x4F60 :: nat]"
    by simp
  have b: "is_chinese ([0x4F60] ! 0)"
    by (simp add: is_chinese_def)
  have t: "ex_lookup 0x4F60 = [110, 0x1D0]"
    by (simp add: ex_lookup_def)
  have c: "ex_lookup ([0x4F60] ! 0) \<noteq> []"
    by (simp add: t)
  have d: "\<not> isspace (last (ex_lookup ([0x4F60] ! 0)))"
    by (simp add: t isspace_def)
  have k: "token_column ex_lookup [0x4F60] 0 = 0"
    by (simp add: token_column_def)
  show ?thesis
    using a b c d token_never_truncated[where i = 0 and line = "[0x4F60]" and lookup = ex_lookup, OF a b c d]
    by (auto simp: k t)
qed

text \<open>
  C5, as stated, fails: in the line U+4F60, tab, U+597D the tab is a pass-through
  character, and it puts a tab, not a space, at column 4 of the emitted annotation line,
  a column that no token occupies.
\<close>

theorem tab_column_counterexample:
  "line_body ex_lookup [0x4F60, 9, 0x597D] =
     Some (Inr [[110, 0x1D0, 32, 32, 9, 104, 0x1CE, 111], [0x4F60, 9, 0x597D]]) \<and>
   \<not> is_chinese ([0x4F60, 9, 0x597D] ! 1) \<and>
   [110, 0x1D0, 32, 32, 9, 104, 0x1CE, 111] ! 4 = [0x4F60, 9, 0x597D] ! 1 \<and>
   [110, 0x1D0, 32, 32, 9, 104, 0x1CE, 111] ! 4 \<noteq> (32 :: nat)"
proof -
  have h: "list_ex is_chinese [0x4F60, 9, 0x597D]"
    by (simp add: is_chinese_def)
  show ?thesis
    by (simp add: line_body_chinese[OF h] piece_def ex_lookup_def is_chinese_def isspace_def
        rstrip_def)
qed

text \<open>
  C5, amended. For a line with a qualifying character, the emitted annotation line is
  the untrimmed annotation line with its trailing whitespace removed, hence a prefix of
  it, and the untrimmed annotation line is the concatenation of one piece per character
  of the line, in order: for a qualifying character its token and two spaces, for a
  pass-through character that is whitespace that character itself, for any other
  pass-through character one space. So a pass-through character contributes exactly one
  character, a whitespace character, and never a character that is not whitespace.
\<close>

theorem annotation_columns:
  assumes "list_ex is_chinese line"
  shows "\<exists>a pl ps. line_body lookup line = Some (Inr [a, line]) \<and>
     pinyin_while lookup line 0 [] = Some (Inr pl) \<and>
     a = rstrip pl \<and> prefix a pl \<and>
     pl = concat ps \<and> length ps = length line \<and>
     (\<forall>k<length line.
        (is_chinese (line ! k) \<longrightarrow> ps ! k = lookup (line ! k) @ [32, 32]) \<and>
        (\<not> is_chinese (line ! k) \<longrightarrow> isspace (line ! k) \<longrightarrow> ps ! k = [line ! k]) \<and>
        (\<not> is_chinese (line ! k) \<longrightarrow> \<not> isspace (line ! k) \<longrightarrow> ps ! k = [32]))"
proof -
  let ?ps = "map (piece lookup) line"
  have "line_body lookup line = Some (Inr [rstrip (concat ?ps), line])"
    using assms by (rule line_body_chinese)
  moreover have "pinyin_while lookup line 0 [] = Some (Inr (concat ?ps))"
    by (rule pinyin_while_start)
  moreover have "length ?ps = length line"
    by simp
  moreover have "prefix (rstrip (concat ?ps)) (concat ?ps)"
    by (rule rstrip_prefix)
  moreover have "\<forall>k<length line.
        (is_chinese (line ! k) \<longrightarrow> ?ps ! k = lookup (line ! k) @ [32, 32]) \<and>
        (\<not> is_chinese (line ! k) \<longrightarrow> isspace (line ! k) \<longrightarrow> ?ps ! k = [line ! k]) \<and>
        (\<not> is_chinese (line ! k) \<longrightarrow> \<not> isspace (line ! k) \<longrightarrow> ?ps ! k = [32])"
    by (simp add: piece_def)
  ultimately show ?thesis
    by blast
qed

theorem annotation_columns_witness:
  "list_ex is_chinese [0x4F60, 9, 44, 0x597D] \<and>
   is_chinese ([0x4F60, 9, 44, 0x597D] ! 0) \<and>
   \<not> is_chinese ([0x4F60, 9, 44, 0x597D] ! 1) \<and> isspace ([0x4F60, 9, 44, 0x597D] ! 1) \<and>
   \<not> is_chinese ([0x4F60, 9, 44, 0x597D] ! 2) \<and> \<not> isspace ([0x4F60, 9, 44, 0x597D] ! 2) \<and>
   (\<exists>a pl ps. line_body ex_lookup [0x4F60, 9, 44, 0x597D] = Some (Inr [a, [0x4F60, 9, 44, 0x597D]]) \<and>
      a = rstrip pl \<and> pl = concat ps \<and> length ps = 4 \<and>
      ps ! 0 = [110, 0x1D0, 32, 32] \<and> ps ! 1 = [9] \<and> ps ! 2 = [32]) \<and>
   line_body ex_lookup [0x4F60, 9, 44, 0x597D] =
     Some (Inr [[110, 0x1D0, 32, 32, 9, 32, 104, 0x1CE, 111], [0x4F60, 9, 44, 0x597D]])"
proof -
  have h: "list_ex is_chinese [0x4F60, 9, 44, 0x597D]"
    by (simp add: is_chinese_def)
  have c: "is_chinese ([0x4F60, 9, 44, 0x597D] ! 0)" "\<not> is_chinese ([0x4F60, 9, 44, 0x597D] ! 1)"
    "isspace ([0x4F60, 9, 44, 0x597D] ! 1)" "\<not> is_chinese ([0x4F60, 9, 44, 0x597D] ! 2)"
    "\<not> isspace ([0x4F60, 9, 44, 0x597D] ! 2)"
    by (simp_all add: is_chinese_def isspace_def)
  have t: "ex_lookup 0x4F60 = [110, 0x1D0]"
    by (simp add: ex_lookup_def)
  have e: "line_body ex_lookup [0x4F60, 9, 44, 0x597D] =
     Some (Inr [[110, 0x1D0, 32, 32, 9, 32, 104, 0x1CE, 111], [0x4F60, 9, 44, 0x597D]])"
    by (simp add: line_body_chinese[OF h] piece_def ex_lookup_def is_chinese_def isspace_def
        rstrip_def)
  from annotation_columns[OF h, of ex_lookup]
  obtain a pl ps
    where run: "line_body ex_lookup [0x4F60, 9, 44, 0x597D] = Some (Inr [a, [0x4F60, 9, 44, 0x597D]])"
    and a: "a = rstrip pl" and pl: "pl = concat ps" and len: "length ps = 4"
    and cols: "\<forall>k<4.
        (is_chinese ([0x4F60, 9, 44, 0x597D] ! k) \<longrightarrow>
           ps ! k = ex_lookup ([0x4F60, 9, 44, 0x597D] ! k) @ [32, 32]) \<and>
        (\<not> is_chinese ([0x4F60, 9, 44, 0x597D] ! k) \<longrightarrow> isspace ([0x4F60, 9, 44, 0x597D] ! k) \<longrightarrow>
           ps ! k = [[0x4F60, 9, 44, 0x597D] ! k]) \<and>
        (\<not> is_chinese ([0x4F60, 9, 44, 0x597D] ! k) \<longrightarrow> \<not> isspace ([0x4F60, 9, 44, 0x597D] ! k) \<longrightarrow>
           ps ! k = [32])"
    by auto
  have k: "(0::nat) < 4" "(1::nat) < 4" "(2::nat) < 4"
    by simp_all
  from cols k(1) have "is_chinese ([0x4F60, 9, 44, 0x597D] ! 0) \<longrightarrow>
      ps ! 0 = ex_lookup ([0x4F60, 9, 44, 0x597D] ! 0) @ [32, 32]"
    by blast
  then have p0: "ps ! 0 = [110, 0x1D0, 32, 32]"
    using c(1) t by simp
  from cols k(2) have "\<not> is_chinese ([0x4F60, 9, 44, 0x597D] ! 1) \<longrightarrow>
      isspace ([0x4F60, 9, 44, 0x597D] ! 1) \<longrightarrow> ps ! 1 = [[0x4F60, 9, 44, 0x597D] ! 1]"
    by blast
  then have p1: "ps ! 1 = [9]"
    using c(2,3) by simp
  from cols k(3) have "\<not> is_chinese ([0x4F60, 9, 44, 0x597D] ! 2) \<longrightarrow>
      \<not> isspace ([0x4F60, 9, 44, 0x597D] ! 2) \<longrightarrow> ps ! 2 = [32]"
    by blast
  then have p2: "ps ! 2 = [32]"
    using c(4,5) by simp
  have "\<exists>a pl ps. line_body ex_lookup [0x4F60, 9, 44, 0x597D] = Some (Inr [a, [0x4F60, 9, 44, 0x597D]]) \<and>
      a = rstrip pl \<and> pl = concat ps \<and> length ps = 4 \<and>
      ps ! 0 = [110, 0x1D0, 32, 32] \<and> ps ! 1 = [9] \<and> ps ! 2 = [32]"
    using run a pl len p0 p1 p2 by blast
  then show ?thesis
    using h c e by blast
qed

text \<open>
  C8, as stated, fails: for the line U+4F60, U+597D, \<open>, world\<close> the emitted annotation
  line has two spaces between the two tokens.
\<close>

theorem example_line_counterexample:
  "line_body ex_lookup [0x4F60, 0x597D, 44, 32, 119, 111, 114, 108, 100] =
     Some (Inr [[110, 0x1D0, 32, 32, 104, 0x1CE, 111], [0x4F60, 0x597D, 44, 32, 119, 111, 114, 108, 100]]) \<and>
   [110, 0x1D0, 32, 32, 104, 0x1CE, 111] \<noteq> [110 :: nat, 0x1D0, 104, 0x1CE, 111]"
proof -
  have h: "list_ex is_chinese [0x4F60, 0x597D, 44, 32, 119, 111, 114, 108, 100]"
    by (simp add: is_chinese_def)
  show ?thesis
    by (simp add: line_body_chinese[OF h] piece_def ex_lookup_def is_chinese_def isspace_def
        rstrip_def)
qed

text \<open>
  C8, amended. For the input line U+4F60, U+597D, \<open>, world\<close> (code points 44, 32, 119,
  111, 114, 108, 100) with the tokens \<open>n\<close>, U+01D0 and \<open>h\<close>, U+01CE, \<open>o\<close>, the
  conversion returns the trimmed annotation line \<open>n\<close>, U+01D0, two spaces, \<open>h\<close>,
  U+01CE, \<open>o\<close>, then a newline, then the original line unchanged.
\<close>

theorem example_line:
  assumes "lookup 0x4F60 = [110, 0x1D0]" "lookup 0x597D = [104, 0x1CE, 111]"
  shows "add_pinyin_preserve_format_optimized lookup [0x4F60, 0x597D, 44, 32, 119, 111, 114, 108, 100] =
     Some (Inr ([110, 0x1D0, 32, 32, 104, 0x1CE, 111] @ [10] @
       [0x4F60, 0x597D, 44, 32, 119, 111, 114, 108, 100]))"
proof -
  have s: "split_nl [0x4F60, 0x597D, 44, 32, 119, 111, 114, 108, 100] = [[0x4F60, 0x597D, 44, 32, 119, 111, 114, 108, 100]]"
    by (rule split_nl_plain) simp
  have h: "list_ex is_chinese [0x4F60, 0x597D, 44, 32, 119, 111, 114, 108, 100]"
    by (simp add: is_chinese_def)
  have "line_body lookup [0x4F60, 0x597D, 44, 32, 119, 111, 114, 108, 100] =
      Some (Inr [[110, 0x1D0, 32, 32, 104, 0x1CE, 111], [0x4F60, 0x597D, 44, 32, 119, 111, 114, 108, 100]])"
    by (simp add: line_body_chinese[OF h] piece_def assms is_chinese_def isspace_def
        rstrip_def)
  then show ?thesis
    unfolding add_pinyin_preserve_format_optimized_def s by simp
qed

theorem example_line_witness:
  "ex_lookup 0x4F60 = [110, 0x1D0] \<and> ex_lookup 0x597D = [104, 0x1CE, 111] \<and>
   add_pinyin_preserve_format_optimized ex_lookup [0x4F60, 0x597D, 44, 32, 119, 111, 114, 108, 100] =
     Some (Inr ([110, 0x1D0, 32, 32, 104, 0x1CE, 111] @ [10] @
       [0x4F60, 0x597D, 44, 32, 119, 111, 114, 108, 100]))"
proof -
  have a: "ex_lookup 0x4F60 = [110, 0x1D0]"
    by (simp add: ex_lookup_def)
  have b: "ex_lookup 0x597D = [104, 0x1CE, 111]"
    by (simp add: ex_lookup_def)
  show ?thesis
    using a b example_line[OF a b] by simp
qed

section \<open>Processing a file\<close>

text \<open>Printing leaves the files as they are.\<close>

lemma files_print: "files (snd (print w s)) = files w"
  by (simp add: print_def split: option.splits)

lemma files_prints: "files (snd (prints w ss)) = files w"
proof (induction ss arbitrary: w)
  case Nil
  then show ?case by simp
next
  case (Cons s ss)
  show ?case
  proof (cases "print_fault w s")
    case None
    then have "prints w (s # ss) = prints (w\<lparr>stdout := stdout w @ [s]\<rparr>) ss"
      by (simp add: print_def)
    then show ?thesis
      using Cons.IH[of "w\<lparr>stdout := stdout w @ [s]\<rparr>"] by simp
  next
    case (Some e)
    then show ?thesis by (simp add: print_def)
  qed
qed

lemma files_handlers: "files (snd (handlers w input_file e)) = files w"
  by (simp add: handlers_def files_print)

text \<open>
  When the input file can be read and the output path can be opened, \<open>process_file\<close>
  stores the converted text under the output path, whatever happens to the calls of
  \<open>print\<close> after it.
\<close>

lemma process_file_writes:
  assumes "files w input_file = Some (Inr chinese_text)" "write_fault w out = None"
  shows "\<exists>r w1 pinyin_text. process_file lookup splitext w input_file (Some out) = Some (r, w1) \<and>
           add_pinyin_preserve_format_optimized lookup chinese_text = Some (Inr pinyin_text) \<and>
           files w1 = (files w)(out \<mapsto> Inr pinyin_text)"
proof -
  obtain pinyin_text where
    c: "add_pinyin_preserve_format_optimized lookup chinese_text = Some (Inr pinyin_text)"
    by (auto simp: add_pinyin_preserve_format_optimized_def for_lines_eq)
  let ?w1 = "w\<lparr>files := (files w)(out \<mapsto> Inr pinyin_text)\<rparr>"
  let ?ss = "[ascii ''Successfully processed: '' @ input_file,
              ascii ''Output saved as: '' @ out,
              [10] @ ascii ''Preview:'',
              replicate 40 45,
              pinyin_text,
              replicate 40 45]"
  obtain r w2 where p: "prints ?w1 ?ss = (r, w2)"
    by (cases "prints ?w1 ?ss") auto
  have f2: "files w2 = files ?w1"
    using files_prints[of ?w1 ?ss] p by simp
  have run: "process_file lookup splitext w input_file (Some out) =
      (case r of Some e \<Rightarrow> Some (handlers w2 input_file e) | None \<Rightarrow> Some (None, w2))"
    using assms c p by (simp add: process_file_def open_read_def open_write_def)
  show ?thesis
  proof (cases r)
    case None
    then show ?thesis using run c f2 by simp
  next
    case (Some e)
    obtain r3 w3 where h: "handlers w2 input_file e = (r3, w3)"
      by (cases "handlers w2 input_file e") auto
    then have "files w3 = files w2"
      using files_handlers[of w2 input_file e] by simp
    then show ?thesis using Some run c f2 h by simp
  qed
qed




end
